theory Spec2Isabelle
  imports Main
begin

section \<open>The binary puzzle grid\<close>

text \<open>
  The class \<open>BinaryPuzzle\<close> of \<open>src/binarypuzzle/__init__.py\<close>. A cell is Python's
  \<open>Optional[int]\<close>: \<open>None\<close> is the unknown marker \<open>N\<close>. Exceptions are values of
  \<open>error\<close>; besides the two exceptions of the package, the built-in \<open>IndexError\<close> (a list
  read out of range) and \<open>ValueError\<close> (a tuple unpacking of the wrong length) can be raised
  by the code and are branches of the model.
\<close>

datatype error = InvalidPuzzleError | UnsolvablePuzzleError | IndexError | ValueError

type_synonym cell = "int option"

record BinaryPuzzle =
  f_puzzle :: "cell list list"
  f_size :: nat

text \<open>\<open>BinaryPuzzle.__init__\<close>: the four checks, in the order of the source.\<close>

definition construct :: "cell list list \<Rightarrow> error + BinaryPuzzle" where
  "construct puzzle =
     (let size = length puzzle in
      if size = 0 then Inl InvalidPuzzleError
      else if foldl (\<lambda>acc row. acc + length row) 0 puzzle \<noteq> size ^ 2 then Inl InvalidPuzzleError
      else if size mod 2 \<noteq> 0 then Inl InvalidPuzzleError
      else if list_ex (list_ex (\<lambda>value. value \<notin> set [Some 0, Some 1, None])) puzzle
        then Inl InvalidPuzzleError
      else Inr \<lparr>f_puzzle = puzzle, f_size = size\<rparr>)"

text \<open>Python's \<open>xs[i]\<close> for an index that is not negative.\<close>

definition getitem :: "'a list \<Rightarrow> nat \<Rightarrow> error + 'a" where
  "getitem xs i = (if i < length xs then Inr (xs ! i) else Inl IndexError)"

text \<open>A comprehension or loop whose body can raise: the first error ends it.\<close>

fun mapM :: "('a \<Rightarrow> error + 'b) \<Rightarrow> 'a list \<Rightarrow> error + 'b list" where
  "mapM f [] = Inr []"
| "mapM f (x # xs) =
     (case f x of
        Inl e \<Rightarrow> Inl e
      | Inr y \<Rightarrow> (case mapM f xs of Inl e \<Rightarrow> Inl e | Inr ys \<Rightarrow> Inr (y # ys)))"

definition rows :: "BinaryPuzzle \<Rightarrow> cell list list" where
  "rows g = f_puzzle g"

definition columns :: "BinaryPuzzle \<Rightarrow> error + cell list list" where
  "columns g =
     mapM (\<lambda>y. mapM (\<lambda>x. case getitem (f_puzzle g) x of
                             Inl e \<Rightarrow> Inl e
                           | Inr row \<Rightarrow> getitem row y) [0..<f_size g]) [0..<f_size g]"

definition positions :: "BinaryPuzzle \<Rightarrow> (nat \<times> nat) list" where
  "positions g = concat (map (\<lambda>x. map (\<lambda>y. (x, y)) [0..<f_size g]) [0..<f_size g])"

section \<open>The constraints handed to the solver\<close>

text \<open>
  \<open>solve\<close> builds z3 expressions and adds them to a \<open>Solver\<close>. The expressions it can
  build are integer terms (\<open>Int(name)\<close>, an integer literal, \<open>Sum\<close>) and formulas over
  them (\<open>==\<close>, \<open>And\<close>, \<open>Or\<close>, \<open>Not\<close>). A symbol is named by its position.
\<close>

datatype arith = Int_z3 "nat \<times> nat" | IntVal int | Sum "arith list"

datatype boolref = Eq arith arith | And "boolref list" | Or "boolref list" | Not_z3 boolref

text \<open>A z3 model gives every integer symbol a value.\<close>

type_synonym model = "nat \<times> nat \<Rightarrow> int"

fun evaluate :: "model \<Rightarrow> arith \<Rightarrow> int" where
  "evaluate m (Int_z3 p) = m p"
| "evaluate m (IntVal n) = n"
| "evaluate m (Sum es) = sum_list (map (evaluate m) es)"

fun holds :: "model \<Rightarrow> boolref \<Rightarrow> bool" where
  "holds m (Eq a b) = (evaluate m a = evaluate m b)"
| "holds m (And fs) = list_all (holds m) fs"
| "holds m (Or fs) = list_ex (holds m) fs"
| "holds m (Not_z3 f) = (\<not> holds m f)"

text \<open>
  The solver itself is not code of this package: \<open>solver.check()\<close> followed by
  \<open>solver.model()\<close> is a parameter of \<open>solve\<close>, a function from the added constraints to a
  model, or to \<open>None\<close> when the answer is not \<open>sat\<close>.
\<close>

type_synonym z3 = "boolref list \<Rightarrow> model option"

fun consts_of :: "arith \<Rightarrow> (nat \<times> nat) list" where
  "consts_of (Int_z3 p) = [p]"
| "consts_of (IntVal n) = []"
| "consts_of (Sum es) = concat (map consts_of es)"

fun consts_in :: "boolref \<Rightarrow> (nat \<times> nat) list" where
  "consts_in (Eq a b) = consts_of a @ consts_of b"
| "consts_in (And fs) = concat (map consts_in fs)"
| "consts_in (Or fs) = concat (map consts_in fs)"
| "consts_in (Not_z3 f) = consts_in f"

text \<open>
  What \<open>solve\<close> relies on: a model that is returned satisfies every constraint, and the
  answer is \<open>sat\<close> whenever the constraints have a model whose symbols are all 0 or 1.
\<close>

definition z3_sound :: "z3 \<Rightarrow> bool" where
  "z3_sound check \<longleftrightarrow> (\<forall>cs m. check cs = Some m \<longrightarrow> list_all (holds m) cs)"

definition z3_complete :: "z3 \<Rightarrow> bool" where
  "z3_complete check \<longleftrightarrow>
     (\<forall>cs m. list_all (holds m) cs \<and> (\<forall>p\<in>set (concat (map consts_in cs)). m p = 0 \<or> m p = 1)
        \<longrightarrow> check cs \<noteq> None)"

text \<open>
  One solver with both properties, by enumeration of the 0/1 assignments to the symbols
  that occur; it makes the theorems below applicable to concrete grids.
\<close>

fun assignments :: "(nat \<times> nat) list \<Rightarrow> model list" where
  "assignments [] = [\<lambda>p. 0]"
| "assignments (v # vs) = concat (map (\<lambda>m. [m(v := 0), m(v := 1)]) (assignments vs))"

definition enum_check :: z3 where
  "enum_check cs =
     find (\<lambda>m. list_all (holds m) cs) (assignments (remdups (concat (map consts_in cs))))"

text \<open>A solver that tries one candidate model only; it is sound as well.\<close>

definition try_model :: "model \<Rightarrow> z3" where
  "try_model m cs = (if list_all (holds m) cs then Some m else None)"

subsection \<open>\<open>BinaryPuzzle.solve\<close>\<close>

definition symbols :: "nat \<times> nat \<Rightarrow> arith" where
  "symbols p = Int_z3 p"

definition sym_rows :: "nat \<Rightarrow> arith list list" where
  "sym_rows sz = map (\<lambda>x. map (\<lambda>y. symbols (x, y)) [0..<sz]) [0..<sz]"

definition sym_columns :: "nat \<Rightarrow> arith list list" where
  "sym_columns sz = map (\<lambda>y. map (\<lambda>x. symbols (x, y)) [0..<sz]) [0..<sz]"

text \<open>The loop over \<open>positions()\<close> that reads \<open>self._puzzle[x][y]\<close> and adds the clues.\<close>

definition given :: "BinaryPuzzle \<Rightarrow> nat \<times> nat \<Rightarrow> error + boolref list" where
  "given g p =
     (case p of (x, y) \<Rightarrow>
        (case getitem (f_puzzle g) x of
           Inl e \<Rightarrow> Inl e
         | Inr row \<Rightarrow>
             (case getitem row y of
                Inl e \<Rightarrow> Inl e
              | Inr None \<Rightarrow> Inr []
              | Inr (Some value) \<Rightarrow> Inr [Eq (symbols (x, y)) (IntVal value)])))"

definition givens :: "BinaryPuzzle \<Rightarrow> error + boolref list" where
  "givens g = (case mapM (given g) (positions g) of Inl e \<Rightarrow> Inl e | Inr cs \<Rightarrow> Inr (concat cs))"

definition domain :: "arith \<Rightarrow> boolref" where
  "domain symbol = Or (map (\<lambda>value. Eq symbol (IntVal value)) [0, 1])"

definition balance :: "nat \<Rightarrow> arith list \<Rightarrow> boolref" where
  "balance sz line = Eq (Sum line) (IntVal (int sz div 2))"

definition unique :: "arith list list \<Rightarrow> boolref" where
  "unique lines =
     Not_z3 (Or [And (map (\<lambda>(a, b). Eq a b) (zip line_a line_b)).
                   line_a \<leftarrow> lines, line_b \<leftarrow> lines, line_a \<noteq> line_b])"

text \<open>\<open>a, b, c = line[i:i + 3]\<close> raises \<open>ValueError\<close> unless the slice has three elements.\<close>

definition window :: "arith list \<Rightarrow> nat \<Rightarrow> error + boolref" where
  "window line i =
     (case take 3 (drop i line) of
        [a, b, c] \<Rightarrow> Inr (Not_z3 (And [Eq a b, Eq b c]))
      | _ \<Rightarrow> Inl ValueError)"

definition triples :: "nat \<Rightarrow> arith list list \<Rightarrow> error + boolref list" where
  "triples sz lines =
     (case mapM (\<lambda>line. mapM (window line) [0..<sz - 2]) lines of
        Inl e \<Rightarrow> Inl e
      | Inr cs \<Rightarrow> Inr (concat cs))"

text \<open>The last constraint, added only when \<open>size > 2\<close>.\<close>

definition no_triple :: "nat \<Rightarrow> error + boolref list" where
  "no_triple sz =
     (if sz > 2 then
        (case triples sz (sym_rows sz) of
           Inl e \<Rightarrow> Inl e
         | Inr rs \<Rightarrow>
             (case triples sz (sym_columns sz) of
                Inl e \<Rightarrow> Inl e
              | Inr cs \<Rightarrow> Inr (rs @ cs)))
      else Inr [])"

text \<open>Everything added to the solver before \<open>solver.check()\<close>, in the order of the source.\<close>

definition constraints :: "BinaryPuzzle \<Rightarrow> error + boolref list" where
  "constraints g =
     (let size = f_size g in
      case givens g of
        Inl e \<Rightarrow> Inl e
      | Inr clues \<Rightarrow>
          (case no_triple size of
             Inl e \<Rightarrow> Inl e
           | Inr ts \<Rightarrow>
               Inr (clues
                    @ map (\<lambda>p. domain (symbols p)) (positions g)
                    @ map (balance size) (sym_rows size)
                    @ map (balance size) (sym_columns size)
                    @ [unique (sym_rows size)]
                    @ [unique (sym_columns size)]
                    @ ts)))"

text \<open>\<open>[[result[(x, y)].as_long() for y in range(size)] for x in range(size)]\<close>\<close>

definition result_cells :: "model \<Rightarrow> nat \<Rightarrow> cell list list" where
  "result_cells m sz = map (\<lambda>x. map (\<lambda>y. Some (m (x, y))) [0..<sz]) [0..<sz]"

definition solve :: "z3 \<Rightarrow> BinaryPuzzle \<Rightarrow> error + BinaryPuzzle" where
  "solve check g =
     (case constraints g of
        Inl e \<Rightarrow> Inl e
      | Inr cs \<Rightarrow>
          (case check cs of
             None \<Rightarrow> Inl UnsolvablePuzzleError
           | Some m \<Rightarrow>
               construct (result_cells m (f_size g))))"

section \<open>Equality\<close>

text \<open>
  \<open>BinaryPuzzle.__eq__\<close> takes any Python object. An operand is a puzzle, an integer, or
  an instance of some other class, given by what its own \<open>__eq__\<close> answers for a puzzle.
  The method returns a truth value or the constant \<open>NotImplemented\<close>.
\<close>

datatype eq_result = PyBool bool | NotImplemented

datatype pyobject = Puzzle BinaryPuzzle | PyInt int | Foreign "BinaryPuzzle \<Rightarrow> eq_result"

fun isinstance_BinaryPuzzle :: "pyobject \<Rightarrow> bool" where
  "isinstance_BinaryPuzzle (Puzzle p) = True"
| "isinstance_BinaryPuzzle other = False"

text \<open>\<open>__eq__\<close>: \<open>NotImplemented\<close> unless \<open>other\<close> is a puzzle, else the comparison of the rows.\<close>

fun BinaryPuzzle_eq :: "BinaryPuzzle \<Rightarrow> pyobject \<Rightarrow> eq_result" where
  "BinaryPuzzle_eq self (Puzzle other) = PyBool (rows self = rows other)"
| "BinaryPuzzle_eq self other = NotImplemented"

text \<open>
  The operator \<open>self == other\<close>: Python calls \<open>self.__eq__(other)\<close>; when that
  returns \<open>NotImplemented\<close> it calls the reflected \<open>other.__eq__(self)\<close>; when that
  declines too, it compares identities, which differ here. \<open>int.__eq__\<close> declines
  for an operand that is not a number.
\<close>

fun reflected_eq :: "pyobject \<Rightarrow> BinaryPuzzle \<Rightarrow> eq_result" where
  "reflected_eq (Puzzle p) self = BinaryPuzzle_eq p (Puzzle self)"
| "reflected_eq (PyInt n) self = NotImplemented"
| "reflected_eq (Foreign f) self = f self"

definition equals :: "BinaryPuzzle \<Rightarrow> pyobject \<Rightarrow> bool" where
  "equals self other =
     (case BinaryPuzzle_eq self other of
        PyBool b \<Rightarrow> b
      | NotImplemented \<Rightarrow>
          (case reflected_eq other self of PyBool b \<Rightarrow> b | NotImplemented \<Rightarrow> False))"

text \<open>An \<open>__eq__\<close> that accepts everything, as that of \<open>unittest.mock.ANY\<close>.\<close>

definition always_equal :: "BinaryPuzzle \<Rightarrow> eq_result" where
  "always_equal p = PyBool True"

section \<open>The rules of the puzzle, as the specification words them\<close>

text \<open>A grid is square when it has \<open>size\<close> rows of \<open>size\<close> cells each.\<close>

definition square :: "BinaryPuzzle \<Rightarrow> bool" where
  "square g \<longleftrightarrow> length (rows g) = f_size g \<and> (\<forall>row\<in>set (rows g). length row = f_size g)"

text \<open>A line holds exactly \<open>size/2\<close> zeros, exactly \<open>size/2\<close> ones and no unknown marker.\<close>

definition balanced :: "nat \<Rightarrow> cell list \<Rightarrow> bool" where
  "balanced sz line \<longleftrightarrow>
     count_list line (Some 0) = sz div 2 \<and> count_list line (Some 1) = sz div 2
     \<and> count_list line None = 0"

text \<open>A line has three consecutive equal values.\<close>

fun has_triple :: "cell list \<Rightarrow> bool" where
  "has_triple (a # b # c # line) = ((a = b \<and> b = c) \<or> has_triple (b # c # line))"
| "has_triple line = False"

text \<open>Any two lines at different places differ in at least one cell.\<close>

definition pairwise_differ :: "cell list list \<Rightarrow> bool" where
  "pairwise_differ ls \<longleftrightarrow>
     (\<forall>i<length ls. \<forall>j<length ls. i \<noteq> j \<longrightarrow>
        (\<exists>k. k < length (ls ! i) \<and> k < length (ls ! j) \<and> ls ! i ! k \<noteq> ls ! j ! k))"

text \<open>The cells that \<open>g\<close> gives are the same in \<open>r\<close>.\<close>

definition keeps_clues :: "BinaryPuzzle \<Rightarrow> BinaryPuzzle \<Rightarrow> bool" where
  "keeps_clues g r \<longleftrightarrow>
     (\<forall>(x, y)\<in>set (positions g).
        f_puzzle g ! x ! y \<noteq> None \<longrightarrow> f_puzzle r ! x ! y = f_puzzle g ! x ! y)"

text \<open>
  All four rules at once: every row and column is filled and balanced and has no triple,
  the rows differ pairwise and so do the columns.
\<close>

definition solved :: "BinaryPuzzle \<Rightarrow> bool" where
  "solved r \<longleftrightarrow>
     (case columns r of
        Inl e \<Rightarrow> False
      | Inr cs \<Rightarrow>
          (\<forall>line\<in>set (rows r) \<union> set cs. balanced (f_size r) line \<and> \<not> has_triple line)
          \<and> pairwise_differ (rows r) \<and> pairwise_differ cs)"

text \<open>
  An assignment of 0/1 values to the unknown cells of \<open>g\<close> that satisfies all four rules
  and keeps the given cells.
\<close>

definition solution :: "BinaryPuzzle \<Rightarrow> BinaryPuzzle \<Rightarrow> bool" where
  "solution g r \<longleftrightarrow> square r \<and> f_size r = f_size g \<and> keeps_clues g r \<and> solved r"

text \<open>The two unsolvable grids of \<open>test_unsolvable\<close>.\<close>

definition all_ones :: BinaryPuzzle where
  "all_ones = \<lparr>f_puzzle = [[Some 1, Some 1, Some 1, Some 1], [Some 1, Some 1, Some 1, Some 1],
                           [Some 1, Some 1, Some 1, Some 1], [Some 1, Some 1, Some 1, Some 1]],
               f_size = 4\<rparr>"

definition three_ones :: BinaryPuzzle where
  "three_ones = \<lparr>f_puzzle = [[Some 1, Some 1], [Some 1, None]], f_size = 2\<rparr>"

text \<open>The solved grid of \<open>test_simple_2x2\<close>, and a grid whose rows have lengths 3 and 1.\<close>

definition solved_2x2 :: BinaryPuzzle where
  "solved_2x2 = \<lparr>f_puzzle = [[Some 0, Some 1], [Some 1, Some 0]], f_size = 2\<rparr>"

definition ragged :: BinaryPuzzle where
  "ragged = \<lparr>f_puzzle = [[Some 0, Some 1, Some 1], [Some 0]], f_size = 2\<rparr>"

text \<open>The same rules on a model of the solver, for the proofs.\<close>

definition model_ok :: "BinaryPuzzle \<Rightarrow> model \<Rightarrow> bool" where
  "model_ok g m \<longleftrightarrow>
     (let n = f_size g in
      (\<forall>x<n. \<forall>y<n. \<forall>v. f_puzzle g ! x ! y = Some v \<longrightarrow> m (x, y) = v)
      \<and> (\<forall>x<n. \<forall>y<n. m (x, y) = 0 \<or> m (x, y) = 1)
      \<and> (\<forall>x<n. sum_list (map (\<lambda>y. m (x, y)) [0..<n]) = int n div 2)
      \<and> (\<forall>y<n. sum_list (map (\<lambda>x. m (x, y)) [0..<n]) = int n div 2)
      \<and> (\<forall>x<n. \<forall>x'<n. x \<noteq> x' \<longrightarrow> (\<exists>y<n. m (x, y) \<noteq> m (x', y)))
      \<and> (\<forall>y<n. \<forall>y'<n. y \<noteq> y' \<longrightarrow> (\<exists>x<n. m (x, y) \<noteq> m (x, y')))
      \<and> (\<forall>x<n. \<forall>i. i + 2 < n \<longrightarrow> \<not> (m (x, i) = m (x, i + 1) \<and> m (x, i + 1) = m (x, i + 2)))
      \<and> (\<forall>y<n. \<forall>i. i + 2 < n \<longrightarrow> \<not> (m (i, y) = m (i + 1, y) \<and> m (i + 1, y) = m (i + 2, y))))"

text \<open>The window constraint of a line at \<open>i\<close>, and the model that reads a grid.\<close>

definition triple_at :: "arith list \<Rightarrow> nat \<Rightarrow> boolref" where
  "triple_at line i =
     Not_z3 (And [Eq (line ! i) (line ! (i + 1)), Eq (line ! (i + 1)) (line ! (i + 2))])"

text \<open>The clue constraint of a position that is in range.\<close>

definition clue :: "BinaryPuzzle \<Rightarrow> nat \<times> nat \<Rightarrow> boolref list" where
  "clue g p = (case p of (x, y) \<Rightarrow>
     (case f_puzzle g ! x ! y of None \<Rightarrow> [] | Some v \<Rightarrow> [Eq (symbols (x, y)) (IntVal v)]))"

definition model_of :: "BinaryPuzzle \<Rightarrow> model" where
  "model_of r = (\<lambda>(x, y).
     if x < f_size r \<and> y < f_size r
     then (case f_puzzle r ! x ! y of Some v \<Rightarrow> v | None \<Rightarrow> 0) else 0)"

section \<open>Construction\<close>

lemma foldl_add_length:
  "foldl (\<lambda>acc row. acc + length row) a xss = a + length (concat xss)"
  by (induction xss arbitrary: a) simp_all

lemma construct_cases:
  "construct cells =
     (if cells = [] \<or> length (concat cells) \<noteq> (length cells)\<^sup>2 \<or> odd (length cells)
         \<or> (\<exists>row\<in>set cells. \<exists>v\<in>set row. v \<noteq> Some 0 \<and> v \<noteq> Some 1 \<and> v \<noteq> None)
      then Inl InvalidPuzzleError
      else Inr \<lparr>f_puzzle = cells, f_size = length cells\<rparr>)"
  unfolding construct_def Let_def foldl_add_length list_ex_iff
  by (auto simp: odd_iff_mod_2_eq_one)

text \<open>
  C8: \<open>construct\<close> raises \<open>InvalidPuzzleError\<close> exactly when the input is empty, or its
  total cell count differs from the square of its number of rows, or that number is odd, or
  some cell is none of 0, 1 and the unknown marker; in every other case it succeeds (and
  stores the cells and the number of rows).
\<close>

theorem construct_invalid_iff:
  "(construct cells = Inl InvalidPuzzleError \<longleftrightarrow>
      cells = [] \<or> length (concat cells) \<noteq> (length cells)\<^sup>2 \<or> odd (length cells)
      \<or> (\<exists>row\<in>set cells. \<exists>v\<in>set row. v \<noteq> Some 0 \<and> v \<noteq> Some 1 \<and> v \<noteq> None))
   \<and> (construct cells \<noteq> Inl InvalidPuzzleError \<longrightarrow>
        construct cells = Inr \<lparr>f_puzzle = cells, f_size = length cells\<rparr>)"
  unfolding construct_cases by simp

theorem construct_invalid_iff_witness:
  "construct [[Some 0, Some 1], [Some 1, None]]
     = Inr \<lparr>f_puzzle = [[Some 0, Some 1], [Some 1, None]], f_size = 2\<rparr>
   \<and> construct [[Some 0, Some 1], [Some 0]] = Inl InvalidPuzzleError
   \<and> construct [[Some 1, Some 2], [Some 3, Some 4]] = Inl InvalidPuzzleError"
  using construct_invalid_iff [of "[[Some 0, Some 1], [Some 1, None]]"]
    construct_invalid_iff [of "[[Some 0, Some 1], [Some 0]]"]
    construct_invalid_iff [of "[[Some 1, Some 2], [Some 3, Some 4]]"]
  by (auto simp: power2_eq_square)

section \<open>Grids that \<open>solve\<close> reads without error are square\<close>


lemma mapM_Inr_map:
  "(\<And>x. x \<in> set xs \<Longrightarrow> f x = Inr (h x)) \<Longrightarrow> mapM f xs = Inr (map h xs)"
  by (induction xs) simp_all

lemma mapM_Inr_D:
  "mapM f xs = Inr ys \<Longrightarrow> x \<in> set xs \<Longrightarrow> \<exists>y. f x = Inr y"
  by (induction xs arbitrary: ys) (auto split: sum.splits)

lemma set_positions: "set (positions g) = {(x, y). x < f_size g \<and> y < f_size g}"
  by (auto simp: positions_def)

lemma given_Inr_D:
  "given g (x, y) = Inr c \<Longrightarrow> x < length (f_puzzle g) \<and> y < length (f_puzzle g ! x)"
  by (auto simp: given_def getitem_def split: if_splits sum.splits)

lemma givens_Inr_D:
  assumes "givens g = Inr cs" and "x < f_size g" and "y < f_size g"
  shows "x < length (f_puzzle g) \<and> y < length (f_puzzle g ! x)"
proof -
  from assms(1) obtain ds where ds: "mapM (given g) (positions g) = Inr ds"
    by (auto simp: givens_def split: sum.splits)
  have "(x, y) \<in> set (positions g)"
    using assms(2,3) by (simp add: set_positions)
  from mapM_Inr_D [OF ds this] obtain c where "given g (x, y) = Inr c" ..
  then show ?thesis by (rule given_Inr_D)
qed

lemma concat_length_ge:
  "(\<forall>row\<in>set xss. n \<le> length row) \<Longrightarrow> length xss * n \<le> length (concat xss)"
  by (induction xss) auto

lemma concat_length_exact:
  "(\<forall>row\<in>set xss. n \<le> length row) \<Longrightarrow> length (concat xss) = length xss * n
     \<Longrightarrow> \<forall>row\<in>set xss. length row = n"
proof (induction xss)
  case Nil
  then show ?case by simp
next
  case (Cons xs xss)
  have ge: "length xss * n \<le> length (concat xss)"
    using Cons.prems(1) by (simp add: concat_length_ge)
  have "n \<le> length xs" using Cons.prems(1) by simp
  with ge Cons.prems(2) have "length xs = n" and "length (concat xss) = length xss * n"
    by auto
  with Cons show ?case by simp
qed

lemma construct_Inr_D:
  "construct cells = Inr g \<Longrightarrow>
     g = \<lparr>f_puzzle = cells, f_size = length cells\<rparr> \<and> cells \<noteq> [] \<and> even (length cells)
     \<and> length (concat cells) = (length cells)\<^sup>2
     \<and> (\<forall>row\<in>set cells. \<forall>v\<in>set row. v = Some 0 \<or> v = Some 1 \<or> v = None)"
  unfolding construct_cases by (auto split: if_splits)

lemma in_range_square:
  assumes c: "construct cells = Inr g"
    and rng: "\<And>x y. x < f_size g \<Longrightarrow> y < f_size g \<Longrightarrow> y < length (f_puzzle g ! x)"
  shows "square g"
proof -
  from construct_Inr_D [OF c] have g: "f_puzzle g = cells" "f_size g = length cells"
    and tot: "length (concat cells) = length cells * length cells"
    by (auto simp: power2_eq_square)
  have "\<forall>row\<in>set cells. length cells \<le> length row"
  proof
    fix row assume "row \<in> set cells"
    then obtain x where x: "x < length cells" "row = cells ! x"
      by (auto simp: in_set_conv_nth)
    show "length cells \<le> length row"
    proof (rule ccontr)
      assume "\<not> length cells \<le> length row"
      then have "length row < f_size g" by (simp add: g)
      with rng [of x "length row"] x g show False by simp
    qed
  qed
  from concat_length_exact [OF this tot] show ?thesis
    by (simp add: square_def rows_def g)
qed

lemma givens_square:
  assumes c: "construct cells = Inr g" and gv: "givens g = Inr cs"
  shows "square g"
proof (rule in_range_square [OF c])
  fix x y assume "x < f_size g" "y < f_size g"
  with givens_Inr_D [OF gv] show "y < length (f_puzzle g ! x)" by blast
qed

section \<open>What each constraint says of a model\<close>


lemma holds_domain: "holds m (domain (symbols p)) \<longleftrightarrow> m p = 0 \<or> m p = 1"
  by (simp add: domain_def symbols_def)

lemma holds_balance:
  "holds m (balance n (map (\<lambda>k. symbols (f k)) ks)) \<longleftrightarrow>
     sum_list (map (\<lambda>k. m (f k)) ks) = int n div 2"
  by (simp add: balance_def symbols_def comp_def)

lemma holds_unique:
  "holds m (unique ls) \<longleftrightarrow>
     (\<forall>a\<in>set ls. \<forall>b\<in>set ls. a \<noteq> b \<longrightarrow> (\<exists>(u, v)\<in>set (zip a b). evaluate m u \<noteq> evaluate m v))"
proof -
  have eqs: "list_all (holds m) (map (\<lambda>(u, v). Eq u v) (zip a b)) \<longleftrightarrow>
               (\<forall>(u, v)\<in>set (zip a b). evaluate m u = evaluate m v)" for a b
    by (induction "zip a b" arbitrary: a b) (auto simp: list_all_iff)
  have "holds m (unique ls) \<longleftrightarrow>
          \<not> (\<exists>a\<in>set ls. \<exists>b\<in>set ls. a \<noteq> b
                 \<and> list_all (holds m) (map (\<lambda>(u, v). Eq u v) (zip a b)))"
    unfolding unique_def by (simp add: list_ex_iff) blast
  then show ?thesis unfolding eqs by blast
qed

lemma sym_rows_eq_iff:
  assumes "0 < n"
  shows "map (\<lambda>y. symbols (x, y)) [0..<n] = map (\<lambda>y. symbols (x', y)) [0..<n] \<longleftrightarrow> x = x'"
proof
  assume "map (\<lambda>y. symbols (x, y)) [0..<n] = map (\<lambda>y. symbols (x', y)) [0..<n]"
  then have "symbols (x, 0) = symbols (x', 0)"
    using assms by auto
  then show "x = x'" by (simp add: symbols_def)
qed simp

lemma sym_columns_eq_iff:
  assumes "0 < n"
  shows "map (\<lambda>x. symbols (x, y)) [0..<n] = map (\<lambda>x. symbols (x, y')) [0..<n] \<longleftrightarrow> y = y'"
proof
  assume "map (\<lambda>x. symbols (x, y)) [0..<n] = map (\<lambda>x. symbols (x, y')) [0..<n]"
  then have "symbols (0, y) = symbols (0, y')"
    using assms by auto
  then show "y = y'" by (simp add: symbols_def)
qed simp

lemma zip_map_same: "zip (map f ks) (map h ks) = map (\<lambda>k. (f k, h k)) ks"
  by (induction ks) simp_all

lemma differ_zip:
  "(\<exists>(u, v)\<in>set (zip (map (\<lambda>k. symbols (f k)) ks) (map (\<lambda>k. symbols (h k)) ks)).
       evaluate m u \<noteq> evaluate m v) \<longleftrightarrow> (\<exists>k\<in>set ks. m (f k) \<noteq> m (h k))"
  by (simp add: zip_map_same symbols_def)

lemma holds_unique_rows:
  assumes "0 < n"
  shows "holds m (unique (sym_rows n)) \<longleftrightarrow>
           (\<forall>x<n. \<forall>x'<n. x \<noteq> x' \<longrightarrow> (\<exists>y<n. m (x, y) \<noteq> m (x', y)))"
proof -
  have set_rows: "set (sym_rows n) = (\<lambda>x. map (\<lambda>y. symbols (x, y)) [0..<n]) ` {..<n}"
    by (auto simp: sym_rows_def)
  have "holds m (unique (sym_rows n)) \<longleftrightarrow>
          (\<forall>x\<in>{..<n}. \<forall>x'\<in>{..<n}. x \<noteq> x' \<longrightarrow> (\<exists>y\<in>set [0..<n]. m (x, y) \<noteq> m (x', y)))"
    unfolding holds_unique set_rows ball_simps differ_zip sym_rows_eq_iff [OF assms] ..
  then show ?thesis by (simp add: Ball_def Bex_def)
qed

lemma holds_unique_columns:
  assumes "0 < n"
  shows "holds m (unique (sym_columns n)) \<longleftrightarrow>
           (\<forall>y<n. \<forall>y'<n. y \<noteq> y' \<longrightarrow> (\<exists>x<n. m (x, y) \<noteq> m (x, y')))"
proof -
  have set_cols: "set (sym_columns n) = (\<lambda>y. map (\<lambda>x. symbols (x, y)) [0..<n]) ` {..<n}"
    by (auto simp: sym_columns_def)
  have "holds m (unique (sym_columns n)) \<longleftrightarrow>
          (\<forall>y\<in>{..<n}. \<forall>y'\<in>{..<n}. y \<noteq> y' \<longrightarrow> (\<exists>x\<in>set [0..<n]. m (x, y) \<noteq> m (x, y')))"
    unfolding holds_unique set_cols ball_simps differ_zip sym_columns_eq_iff [OF assms] ..
  then show ?thesis by (simp add: Ball_def Bex_def)
qed

lemma take3_drop:
  "i + 2 < length xs \<Longrightarrow> take 3 (drop i xs) = [xs ! i, xs ! (i + 1), xs ! (i + 2)]"
  by (simp add: list_eq_iff_nth_eq nth_Cons' numeral_3_eq_3 less_Suc_eq)

lemma window_nth:
  "i + 2 < length line \<Longrightarrow>
     window line i =
       Inr (Not_z3 (And [Eq (line ! i) (line ! (i + 1)), Eq (line ! (i + 1)) (line ! (i + 2))]))"
  by (simp add: window_def take3_drop)

lemma triples_Inr:
  assumes "\<forall>line\<in>set lines. length line = n"
  shows "triples n lines = Inr (concat (map (\<lambda>line. map (triple_at line) [0..<n - 2]) lines))"
proof -
  have "mapM (window line) [0..<n - 2] = Inr (map (triple_at line) [0..<n - 2])"
    if "line \<in> set lines" for line
  proof (rule mapM_Inr_map)
    fix i assume "i \<in> set [0..<n - 2]"
    then have "i + 2 < length line" using assms that by auto
    then show "window line i = Inr (triple_at line i)"
      by (simp add: window_nth triple_at_def)
  qed
  then have "mapM (\<lambda>line. mapM (window line) [0..<n - 2]) lines
               = Inr (map (\<lambda>line. map (triple_at line) [0..<n - 2]) lines)"
    by (rule mapM_Inr_map)
  then show ?thesis by (simp add: triples_def)
qed


section \<open>The constraints of a square grid\<close>


lemma given_square:
  assumes "square g" and "p \<in> set (positions g)"
  shows "given g p = Inr (clue g p)"
proof -
  obtain x y where p: "p = (x, y)" by (cases p)
  with assms(2) have xy: "x < f_size g" "y < f_size g" by (simp_all add: set_positions)
  with assms(1) have "x < length (f_puzzle g)" and "y < length (f_puzzle g ! x)"
    by (simp_all add: square_def rows_def)
  then show ?thesis
    by (simp add: p given_def clue_def getitem_def split: option.splits)
qed

lemma givens_square_Inr:
  "square g \<Longrightarrow> givens g = Inr (concat (map (clue g) (positions g)))"
  by (simp add: givens_def mapM_Inr_map [where h = "clue g"] given_square)

lemma holds_clues:
  "list_all (holds m) (concat (map (clue g) (positions g))) \<longleftrightarrow>
     (\<forall>x<f_size g. \<forall>y<f_size g. \<forall>v. f_puzzle g ! x ! y = Some v \<longrightarrow> m (x, y) = v)"
proof -
  have one: "list_all (holds m) (clue g (x, y)) \<longleftrightarrow>
               (\<forall>v. f_puzzle g ! x ! y = Some v \<longrightarrow> m (x, y) = v)" for x y
    by (simp add: clue_def symbols_def split: option.splits)
  have "list_all (holds m) (concat (map (clue g) (positions g))) \<longleftrightarrow>
          (\<forall>p\<in>set (positions g). list_all (holds m) (clue g p))"
    by (simp add: list_all_iff)
  also have "\<dots> \<longleftrightarrow> (\<forall>x<f_size g. \<forall>y<f_size g. list_all (holds m) (clue g (x, y)))"
    by (auto simp: set_positions)
  finally show ?thesis unfolding one .
qed

lemma holds_domains:
  "list_all (holds m) (map (\<lambda>p. domain (symbols p)) (positions g)) \<longleftrightarrow>
     (\<forall>x<f_size g. \<forall>y<f_size g. m (x, y) = 0 \<or> m (x, y) = 1)"
  by (auto simp: list_all_iff holds_domain set_positions)

lemma holds_balance_rows:
  "list_all (holds m) (map (balance n) (sym_rows n)) \<longleftrightarrow>
     (\<forall>x<n. sum_list (map (\<lambda>y. m (x, y)) [0..<n]) = int n div 2)"
  by (auto simp: list_all_iff sym_rows_def holds_balance)

lemma holds_balance_columns:
  "list_all (holds m) (map (balance n) (sym_columns n)) \<longleftrightarrow>
     (\<forall>y<n. sum_list (map (\<lambda>x. m (x, y)) [0..<n]) = int n div 2)"
  by (auto simp: list_all_iff sym_columns_def holds_balance)

lemma holds_triple_at:
  "i + 2 < length ks \<Longrightarrow>
     holds m (triple_at (map (\<lambda>k. symbols (f k)) ks) i) \<longleftrightarrow>
       \<not> (m (f (ks ! i)) = m (f (ks ! (i + 1))) \<and> m (f (ks ! (i + 1))) = m (f (ks ! (i + 2))))"
  by (simp add: triple_at_def symbols_def)

lemma holds_triples_rows:
  "list_all (holds m) (concat (map (\<lambda>line. map (triple_at line) [0..<n - 2]) (sym_rows n))) \<longleftrightarrow>
     (\<forall>x<n. \<forall>i. i + 2 < n \<longrightarrow> \<not> (m (x, i) = m (x, i + 1) \<and> m (x, i + 1) = m (x, i + 2)))"
proof -
  have one: "holds m (triple_at (map (\<lambda>y. symbols (x, y)) [0..<n]) i) \<longleftrightarrow>
               \<not> (m (x, i) = m (x, i + 1) \<and> m (x, i + 1) = m (x, i + 2))"
    if "i + 2 < n" for x i
    using that holds_triple_at [of i "[0..<n]" m "\<lambda>y. (x, y)"] by simp
  have "list_all (holds m) (concat (map (\<lambda>line. map (triple_at line) [0..<n - 2]) (sym_rows n)))
          \<longleftrightarrow> (\<forall>x<n. \<forall>i<n - 2. holds m (triple_at (map (\<lambda>y. symbols (x, y)) [0..<n]) i))"
    by (auto simp: list_all_iff sym_rows_def)
  also have "\<dots> \<longleftrightarrow> (\<forall>x<n. \<forall>i. i + 2 < n \<longrightarrow>
                 \<not> (m (x, i) = m (x, i + 1) \<and> m (x, i + 1) = m (x, i + 2)))"
    using one by (metis less_diff_conv)
  finally show ?thesis .
qed

lemma holds_triples_columns:
  "list_all (holds m) (concat (map (\<lambda>line. map (triple_at line) [0..<n - 2]) (sym_columns n))) \<longleftrightarrow>
     (\<forall>y<n. \<forall>i. i + 2 < n \<longrightarrow> \<not> (m (i, y) = m (i + 1, y) \<and> m (i + 1, y) = m (i + 2, y)))"
proof -
  have one: "holds m (triple_at (map (\<lambda>x. symbols (x, y)) [0..<n]) i) \<longleftrightarrow>
               \<not> (m (i, y) = m (i + 1, y) \<and> m (i + 1, y) = m (i + 2, y))"
    if "i + 2 < n" for y i
    using that holds_triple_at [of i "[0..<n]" m "\<lambda>x. (x, y)"] by simp
  have "list_all (holds m) (concat (map (\<lambda>line. map (triple_at line) [0..<n - 2]) (sym_columns n)))
          \<longleftrightarrow> (\<forall>y<n. \<forall>i<n - 2. holds m (triple_at (map (\<lambda>x. symbols (x, y)) [0..<n]) i))"
    by (auto simp: list_all_iff sym_columns_def)
  also have "\<dots> \<longleftrightarrow> (\<forall>y<n. \<forall>i. i + 2 < n \<longrightarrow>
                 \<not> (m (i, y) = m (i + 1, y) \<and> m (i + 1, y) = m (i + 2, y)))"
    using one by (metis less_diff_conv)
  finally show ?thesis .
qed

lemma no_triple_Inr:
  "no_triple n =
     Inr (if 2 < n
          then concat (map (\<lambda>line. map (triple_at line) [0..<n - 2]) (sym_rows n))
               @ concat (map (\<lambda>line. map (triple_at line) [0..<n - 2]) (sym_columns n))
          else [])"
proof -
  have "\<forall>line\<in>set (sym_rows n). length line = n" by (auto simp: sym_rows_def)
  moreover have "\<forall>line\<in>set (sym_columns n). length line = n" by (auto simp: sym_columns_def)
  ultimately show ?thesis by (simp add: no_triple_def triples_Inr)
qed

lemma constraints_square:
  assumes sq: "square g" and pos: "0 < f_size g"
  shows "\<exists>cs. constraints g = Inr cs \<and> (\<forall>m. list_all (holds m) cs \<longleftrightarrow> model_ok g m)"
proof (cases "2 < f_size g")
  case True
  then show ?thesis
    unfolding constraints_def Let_def givens_square_Inr [OF sq] no_triple_Inr
    by (simp add: holds_clues holds_domains holds_balance_rows holds_balance_columns
        holds_unique_rows [OF pos] holds_unique_columns [OF pos]
        holds_triples_rows holds_triples_columns model_ok_def Let_def del: holds.simps)
next
  case False
  then have "\<not> i + 2 < f_size g" for i by simp
  with False show ?thesis
    unfolding constraints_def Let_def givens_square_Inr [OF sq] no_triple_Inr
    by (simp add: holds_clues holds_domains holds_balance_rows holds_balance_columns
        holds_unique_rows [OF pos] holds_unique_columns [OF pos] model_ok_def Let_def del: holds.simps)
qed


section \<open>Lines of cells\<close>


lemma count_list_Some:
  "count_list (map (\<lambda>k. Some (h k)) ks) (Some v) = count_list (map h ks) v"
  by (induction ks) simp_all

lemma count_list_None: "count_list (map (\<lambda>k. Some (h k)) ks) None = 0"
  by (induction ks) simp_all

lemma sum_list_binary:
  fixes h :: "'a \<Rightarrow> int"
  assumes "\<forall>k\<in>set ks. h k = 0 \<or> h k = 1"
  shows "sum_list (map h ks) = int (count_list (map h ks) 1)
         \<and> count_list (map h ks) 0 + count_list (map h ks) 1 = length ks"
  using assms by (induction ks) auto

lemma balanced_binary:
  fixes h :: "'a \<Rightarrow> int"
  assumes bin: "\<forall>k\<in>set ks. h k = 0 \<or> h k = 1" and len: "length ks = n" and ev: "even n"
  shows "balanced n (map (\<lambda>k. Some (h k)) ks) \<longleftrightarrow> sum_list (map h ks) = int n div 2"
proof -
  from sum_list_binary [OF bin] len
  have s: "sum_list (map h ks) = int (count_list (map h ks) 1)"
    and c: "count_list (map h ks) 0 + count_list (map h ks) 1 = n"
    by simp_all
  have "int n div 2 = int (n div 2)" by simp
  with ev c show ?thesis
    unfolding balanced_def count_list_Some count_list_None s
    by (auto elim!: evenE)
qed

lemma count_list_two_le:
  "a \<noteq> b \<Longrightarrow> count_list xs a + count_list xs b \<le> length xs"
  by (induction xs) auto

lemma count_list_two_all:
  assumes "a \<noteq> b" and "count_list xs a + count_list xs b = length xs" and "v \<in> set xs"
  shows "v = a \<or> v = b"
  using assms(2,3)
proof (induction xs)
  case Nil
  then show ?case by simp
next
  case (Cons x xs)
  from count_list_two_le [OF assms(1), of xs]
  have le: "count_list xs a + count_list xs b \<le> length xs" .
  from Cons.prems(1) le assms(1) have x: "x = a \<or> x = b"
    by (auto split: if_splits)
  with Cons.prems(1) assms(1) have "count_list xs a + count_list xs b = length xs"
    by (auto split: if_splits)
  with Cons.IH Cons.prems(2) x show ?case by auto
qed

lemma balanced_filled:
  assumes "balanced n line" and "length line = n" and "even n" and "v \<in> set line"
  shows "v = Some 0 \<or> v = Some 1"
proof (rule count_list_two_all [OF _ _ assms(4)])
  show "Some (0::int) \<noteq> Some 1" by simp
  from assms(1,3) have "n div 2 + n div 2 = n" by (auto elim: evenE)
  with assms(1,2) show "count_list line (Some 0) + count_list line (Some 1) = length line"
    by (simp add: balanced_def)
qed


lemma has_triple_nth:
  "has_triple xs \<longleftrightarrow>
     (\<exists>i. i + 2 < length xs \<and> xs ! i = xs ! (i + 1) \<and> xs ! (i + 1) = xs ! (i + 2))"
proof (induction xs rule: has_triple.induct)
  case (1 a b c line)
  have "(\<exists>i. i + 2 < length (a # b # c # line)
              \<and> (a # b # c # line) ! i = (a # b # c # line) ! (i + 1)
              \<and> (a # b # c # line) ! (i + 1) = (a # b # c # line) ! (i + 2))
        \<longleftrightarrow> (a = b \<and> b = c)
            \<or> (\<exists>j. j + 2 < length (b # c # line)
                    \<and> (b # c # line) ! j = (b # c # line) ! (j + 1)
                    \<and> (b # c # line) ! (j + 1) = (b # c # line) ! (j + 2))"
    (is "(\<exists>i. ?P i) \<longleftrightarrow> ?A \<or> (\<exists>j. ?Q j)")
  proof
    assume "\<exists>i. ?P i"
    then obtain i where i: "?P i" ..
    show "?A \<or> (\<exists>j. ?Q j)"
    proof (cases i)
      case 0
      with i show ?thesis by simp
    next
      case (Suc j)
      with i have "?Q j" by simp
      then show ?thesis by blast
    qed
  next
    assume "?A \<or> (\<exists>j. ?Q j)"
    then show "\<exists>i. ?P i"
    proof
      assume ?A
      then have "?P 0" by simp
      then show ?thesis ..
    next
      assume "\<exists>j. ?Q j"
      then obtain j where "?Q j" ..
      then have "?P (Suc j)" by simp
      then show ?thesis ..
    qed
  qed
  with 1 show ?case by simp
qed simp_all

lemma has_triple_map:
  "has_triple (map (\<lambda>k. Some (m (f k))) [0..<n]) \<longleftrightarrow>
     (\<exists>i. i + 2 < n \<and> m (f i) = m (f (i + 1)) \<and> m (f (i + 1)) = m (f (i + 2)))"
  unfolding has_triple_nth by auto

lemma pairwise_differ_map:
  "pairwise_differ (map (\<lambda>a. map (\<lambda>b. Some (m (f a b))) [0..<n]) [0..<n]) \<longleftrightarrow>
     (\<forall>a<n. \<forall>a'<n. a \<noteq> a' \<longrightarrow> (\<exists>b<n. m (f a b) \<noteq> m (f a' b)))"
  unfolding pairwise_differ_def by (simp cong: conj_cong)

lemma columns_square:
  assumes "square r"
  shows "columns r =
           Inr (map (\<lambda>y. map (\<lambda>x. f_puzzle r ! x ! y) [0..<f_size r]) [0..<f_size r])"
proof -
  have cell: "(case getitem (f_puzzle r) x of Inl e \<Rightarrow> Inl e | Inr row \<Rightarrow> getitem row y)
                = Inr (f_puzzle r ! x ! y)"
    if "x < f_size r" "y < f_size r" for x y
    using that assms by (simp add: square_def rows_def getitem_def)
  have "mapM (\<lambda>x. case getitem (f_puzzle r) x of Inl e \<Rightarrow> Inl e | Inr row \<Rightarrow> getitem row y)
             [0..<f_size r]
          = Inr (map (\<lambda>x. f_puzzle r ! x ! y) [0..<f_size r])"
    if "y \<in> set [0..<f_size r]" for y
    using that by (intro mapM_Inr_map) (simp add: cell)
  then show ?thesis
    unfolding columns_def by (rule mapM_Inr_map)
qed


section \<open>The grid built from a model\<close>


lemma rows_result: "rows \<lparr>f_puzzle = result_cells m n, f_size = n\<rparr> = result_cells m n"
  by (simp add: rows_def)

lemma result_cells_nth: "x < n \<Longrightarrow> y < n \<Longrightarrow> result_cells m n ! x ! y = Some (m (x, y))"
  by (simp add: result_cells_def)

lemma square_result: "square \<lparr>f_puzzle = result_cells m n, f_size = n\<rparr>"
  by (auto simp: square_def rows_def result_cells_def)

lemma columns_result:
  "columns \<lparr>f_puzzle = result_cells m n, f_size = n\<rparr>
     = Inr (map (\<lambda>y. map (\<lambda>x. Some (m (x, y))) [0..<n]) [0..<n])"
  by (simp add: columns_square [OF square_result] result_cells_nth)

lemma length_concat_result: "length (concat (result_cells m n)) = n * n"
  by (simp add: result_cells_def length_concat comp_def sum_list_triv)

lemma construct_result:
  assumes "0 < n" and "even n" and "\<forall>x<n. \<forall>y<n. m (x, y) = 0 \<or> m (x, y) = 1"
  shows "construct (result_cells m n) = Inr \<lparr>f_puzzle = result_cells m n, f_size = n\<rparr>"
proof -
  have "v = Some 0 \<or> v = Some 1" if "row \<in> set (result_cells m n)" "v \<in> set row" for row v
  proof -
    from that obtain x y where "x < n" "y < n" "v = Some (m (x, y))"
      by (auto simp: result_cells_def)
    with assms(3) show ?thesis by auto
  qed
  moreover have "length (result_cells m n) = n" by (simp add: result_cells_def)
  ultimately show ?thesis
    using assms(1,2) unfolding construct_cases length_concat_result
    by (auto simp: power2_eq_square)
qed

lemma rows_result_ok:
  assumes bin: "\<forall>x<n. \<forall>y<n. m (x, y) = 0 \<or> m (x, y) = 1" and ev: "even n"
  shows "(\<forall>line\<in>set (result_cells m n). balanced n line \<and> \<not> has_triple line) \<longleftrightarrow>
           (\<forall>x<n. sum_list (map (\<lambda>y. m (x, y)) [0..<n]) = int n div 2)
           \<and> (\<forall>x<n. \<forall>i. i + 2 < n \<longrightarrow>
                 \<not> (m (x, i) = m (x, i + 1) \<and> m (x, i + 1) = m (x, i + 2)))"
proof -
  have b: "balanced n (map (\<lambda>y. Some (m (x, y))) [0..<n]) \<longleftrightarrow>
             sum_list (map (\<lambda>y. m (x, y)) [0..<n]) = int n div 2" if "x < n" for x
    using that bin by (intro balanced_binary ev) simp_all
  have t: "has_triple (map (\<lambda>y. Some (m (x, y))) [0..<n]) \<longleftrightarrow>
             (\<exists>i. i + 2 < n \<and> m (x, i) = m (x, i + 1) \<and> m (x, i + 1) = m (x, i + 2))" for x
    using has_triple_map [of m "\<lambda>y. (x, y)" n] .
  have "(\<forall>line\<in>set (result_cells m n). balanced n line \<and> \<not> has_triple line) \<longleftrightarrow>
          (\<forall>x<n. balanced n (map (\<lambda>y. Some (m (x, y))) [0..<n])
                 \<and> \<not> has_triple (map (\<lambda>y. Some (m (x, y))) [0..<n]))"
    by (auto simp: result_cells_def)
  also have "\<dots> \<longleftrightarrow> (\<forall>x<n. sum_list (map (\<lambda>y. m (x, y)) [0..<n]) = int n div 2
                 \<and> \<not> (\<exists>i. i + 2 < n \<and> m (x, i) = m (x, i + 1) \<and> m (x, i + 1) = m (x, i + 2)))"
    using b t by auto
  finally show ?thesis by blast
qed

lemma columns_result_ok:
  assumes bin: "\<forall>x<n. \<forall>y<n. m (x, y) = 0 \<or> m (x, y) = 1" and ev: "even n"
  shows "(\<forall>line\<in>set (map (\<lambda>y. map (\<lambda>x. Some (m (x, y))) [0..<n]) [0..<n]).
            balanced n line \<and> \<not> has_triple line) \<longleftrightarrow>
           (\<forall>y<n. sum_list (map (\<lambda>x. m (x, y)) [0..<n]) = int n div 2)
           \<and> (\<forall>y<n. \<forall>i. i + 2 < n \<longrightarrow>
                 \<not> (m (i, y) = m (i + 1, y) \<and> m (i + 1, y) = m (i + 2, y)))"
proof -
  have b: "balanced n (map (\<lambda>x. Some (m (x, y))) [0..<n]) \<longleftrightarrow>
             sum_list (map (\<lambda>x. m (x, y)) [0..<n]) = int n div 2" if "y < n" for y
    using that bin by (intro balanced_binary ev) simp_all
  have t: "has_triple (map (\<lambda>x. Some (m (x, y))) [0..<n]) \<longleftrightarrow>
             (\<exists>i. i + 2 < n \<and> m (i, y) = m (i + 1, y) \<and> m (i + 1, y) = m (i + 2, y))" for y
    using has_triple_map [of m "\<lambda>x. (x, y)" n] .
  have "(\<forall>line\<in>set (map (\<lambda>y. map (\<lambda>x. Some (m (x, y))) [0..<n]) [0..<n]).
            balanced n line \<and> \<not> has_triple line) \<longleftrightarrow>
          (\<forall>y<n. balanced n (map (\<lambda>x. Some (m (x, y))) [0..<n])
                 \<and> \<not> has_triple (map (\<lambda>x. Some (m (x, y))) [0..<n]))"
    by auto
  also have "\<dots> \<longleftrightarrow> (\<forall>y<n. sum_list (map (\<lambda>x. m (x, y)) [0..<n]) = int n div 2
                 \<and> \<not> (\<exists>i. i + 2 < n \<and> m (i, y) = m (i + 1, y) \<and> m (i + 1, y) = m (i + 2, y)))"
    using b t by auto
  finally show ?thesis by blast
qed

lemma keeps_clues_result:
  assumes "f_size g = n"
  shows "keeps_clues g \<lparr>f_puzzle = result_cells m n, f_size = n\<rparr> \<longleftrightarrow>
           (\<forall>x<n. \<forall>y<n. \<forall>v. f_puzzle g ! x ! y = Some v \<longrightarrow> m (x, y) = v)"
proof -
  have pt: "(c \<noteq> None \<longrightarrow> Some a = c) \<longleftrightarrow> (\<forall>v. c = Some v \<longrightarrow> a = v)" for c :: cell and a
    by (cases c) auto
  have "keeps_clues g \<lparr>f_puzzle = result_cells m n, f_size = n\<rparr> \<longleftrightarrow>
          (\<forall>x<n. \<forall>y<n. f_puzzle g ! x ! y \<noteq> None \<longrightarrow> Some (m (x, y)) = f_puzzle g ! x ! y)"
    unfolding keeps_clues_def set_positions assms
    by (auto simp: result_cells_nth)
  then show ?thesis unfolding pt .
qed

lemma solved_result:
  assumes bin: "\<forall>x<n. \<forall>y<n. m (x, y) = 0 \<or> m (x, y) = 1" and ev: "even n"
    and n: "f_size g = n"
  shows "model_ok g m \<longleftrightarrow>
           keeps_clues g \<lparr>f_puzzle = result_cells m n, f_size = n\<rparr>
           \<and> solved \<lparr>f_puzzle = result_cells m n, f_size = n\<rparr>"
proof -
  have pr: "pairwise_differ (result_cells m n) \<longleftrightarrow>
              (\<forall>x<n. \<forall>x'<n. x \<noteq> x' \<longrightarrow> (\<exists>y<n. m (x, y) \<noteq> m (x', y)))"
    unfolding result_cells_def using pairwise_differ_map [of m "\<lambda>x y. (x, y)" n] .
  have pc: "pairwise_differ (map (\<lambda>y. map (\<lambda>x. Some (m (x, y))) [0..<n]) [0..<n]) \<longleftrightarrow>
              (\<forall>y<n. \<forall>y'<n. y \<noteq> y' \<longrightarrow> (\<exists>x<n. m (x, y) \<noteq> m (x, y')))"
    using pairwise_differ_map [of m "\<lambda>y x. (x, y)" n] .
  have "solved \<lparr>f_puzzle = result_cells m n, f_size = n\<rparr> \<longleftrightarrow>
          (\<forall>line\<in>set (result_cells m n). balanced n line \<and> \<not> has_triple line)
          \<and> (\<forall>line\<in>set (map (\<lambda>y. map (\<lambda>x. Some (m (x, y))) [0..<n]) [0..<n]).
                balanced n line \<and> \<not> has_triple line)
          \<and> pairwise_differ (result_cells m n)
          \<and> pairwise_differ (map (\<lambda>y. map (\<lambda>x. Some (m (x, y))) [0..<n]) [0..<n])"
    unfolding solved_def columns_result rows_result by (simp add: ball_Un)
  then show ?thesis
    unfolding rows_result_ok [OF bin ev] columns_result_ok [OF bin ev] pr pc
      keeps_clues_result [OF n] model_ok_def Let_def n
    using bin by (simp add: conj_ac)
qed


section \<open>The enumerating solver meets the contract\<close>


lemma enum_check_sound: "z3_sound enum_check"
  unfolding z3_sound_def enum_check_def by (auto simp: find_Some_iff)

lemma evaluate_cong:
  "(\<And>p. p \<in> set (consts_of e) \<Longrightarrow> m p = m' p) \<Longrightarrow> evaluate m e = evaluate m' e"
proof (induction e)
  case (Sum es)
  have "map (evaluate m) es = map (evaluate m') es"
  proof (rule map_cong [OF refl])
    fix e assume e: "e \<in> set es"
    show "evaluate m e = evaluate m' e"
    proof (rule Sum.IH [OF e])
      fix p assume "p \<in> set (consts_of e)"
      with e show "m p = m' p" by (intro Sum.prems) auto
    qed
  qed
  then show ?case by (simp only: evaluate.simps)
qed simp_all

lemma holds_cong:
  "(\<And>p. p \<in> set (consts_in f) \<Longrightarrow> m p = m' p) \<Longrightarrow> holds m f = holds m' f"
proof (induction f)
  case (Eq a b)
  have "evaluate m a = evaluate m' a" by (rule evaluate_cong) (simp add: Eq)
  moreover have "evaluate m b = evaluate m' b" by (rule evaluate_cong) (simp add: Eq)
  ultimately show ?case by simp
next
  case (And fs)
  have "holds m f = holds m' f" if f: "f \<in> set fs" for f
  proof (rule And.IH [OF f])
    fix p assume "p \<in> set (consts_in f)"
    with f show "m p = m' p" by (intro And.prems) auto
  qed
  then show ?case by (simp add: list_all_iff)
next
  case (Or fs)
  have "holds m f = holds m' f" if f: "f \<in> set fs" for f
  proof (rule Or.IH [OF f])
    fix p assume "p \<in> set (consts_in f)"
    with f show "m p = m' p" by (intro Or.prems) auto
  qed
  then show ?case by (simp add: list_ex_iff)
next
  case (Not_z3 f)
  then show ?case by simp
qed

lemma assignments_cover:
  fixes m :: model
  assumes "\<forall>v\<in>set vs. m v = 0 \<or> m v = 1"
  shows "\<exists>m'\<in>set (assignments vs). \<forall>v\<in>set vs. m' v = m v"
  using assms
proof (induction vs)
  case Nil
  then show ?case by simp
next
  case (Cons v vs)
  then obtain m' where m': "m' \<in> set (assignments vs)" "\<forall>u\<in>set vs. m' u = m u"
    by auto
  from Cons.prems have "m v = 0 \<or> m v = 1" by simp
  then have "m'(v := m v) \<in> set (assignments (v # vs))"
    using m'(1) by auto
  moreover have "\<forall>u\<in>set (v # vs). (m'(v := m v)) u = m u"
    using m'(2) by simp
  ultimately show ?case by blast
qed

lemma enum_check_complete: "z3_complete enum_check"
  unfolding z3_complete_def
proof (intro allI impI, elim conjE)
  fix cs and m :: model
  assume sat: "list_all (holds m) cs"
    and bin: "\<forall>p\<in>set (concat (map consts_in cs)). m p = 0 \<or> m p = 1"
  let ?vs = "remdups (concat (map consts_in cs))"
  from bin have "\<forall>v\<in>set ?vs. m v = 0 \<or> m v = 1" by simp
  from assignments_cover [OF this]
  obtain m' where m': "m' \<in> set (assignments ?vs)" "\<forall>v\<in>set ?vs. m' v = m v"
    by blast
  have "holds m' c" if c: "c \<in> set cs" for c
  proof -
    have "holds m' c = holds m c"
    proof (rule holds_cong)
      fix p assume "p \<in> set (consts_in c)"
      with c have "p \<in> set ?vs" by auto
      with m'(2) show "m' p = m p" by blast
    qed
    with sat c show ?thesis by (simp add: list_all_iff)
  qed
  then have "list_all (holds m') cs" by (simp add: list_all_iff)
  with m'(1) show "enum_check cs \<noteq> None"
    unfolding enum_check_def by (auto simp: find_None_iff)
qed

section \<open>What \<open>solve\<close> returns\<close>


lemma columns_Inr_D:
  assumes "columns g = Inr cs" and "x < f_size g" and "y < f_size g"
  shows "x < length (f_puzzle g) \<and> y < length (f_puzzle g ! x)"
proof -
  have y: "y \<in> set [0..<f_size g]" and x: "x \<in> set [0..<f_size g]"
    using assms(2,3) by simp_all
  from mapM_Inr_D [OF assms(1) [unfolded columns_def] y]
  obtain col where "mapM (\<lambda>x. case getitem (f_puzzle g) x of
                                   Inl e \<Rightarrow> Inl e | Inr row \<Rightarrow> getitem row y) [0..<f_size g] = Inr col"
    by blast
  from mapM_Inr_D [OF this x]
  obtain c where "(case getitem (f_puzzle g) x of Inl e \<Rightarrow> Inl e | Inr row \<Rightarrow> getitem row y) = Inr c"
    by blast
  then show ?thesis
    by (auto simp: getitem_def split: if_splits sum.splits)
qed

lemma columns_square_D:
  assumes "construct cells = Inr g" and "columns g = Inr cs"
  shows "square g"
proof (rule in_range_square [OF assms(1)])
  fix x y assume "x < f_size g" "y < f_size g"
  with columns_Inr_D [OF assms(2)] show "y < length (f_puzzle g ! x)" by blast
qed

lemma constraints_Inr_square:
  assumes "construct cells = Inr g" and "constraints g = Inr cs"
  shows "square g"
proof -
  from assms(2) obtain clues where "givens g = Inr clues"
    by (auto simp: constraints_def Let_def split: sum.splits)
  with assms(1) show ?thesis by (rule givens_square)
qed

lemma construct_size:
  assumes "construct cells = Inr g"
  shows "0 < f_size g \<and> even (f_size g)"
  using construct_Inr_D [OF assms] by auto

lemma solve_square:
  assumes c: "construct cells = Inr g" and sq: "square g" and snd: "z3_sound check"
  obtains cs where "constraints g = Inr cs"
    and "\<And>m. list_all (holds m) cs \<longleftrightarrow> model_ok g m"
    and "check cs = None \<Longrightarrow> solve check g = Inl UnsolvablePuzzleError"
    and "\<And>m. check cs = Some m \<Longrightarrow> model_ok g m"
    and "\<And>m. check cs = Some m \<Longrightarrow>
           solve check g = Inr \<lparr>f_puzzle = result_cells m (f_size g), f_size = f_size g\<rparr>"
proof -
  from construct_size [OF c] have pos: "0 < f_size g" and ev: "even (f_size g)" by simp_all
  from constraints_square [OF sq pos]
  obtain cs where cs: "constraints g = Inr cs"
    and iff: "\<forall>m. list_all (holds m) cs \<longleftrightarrow> model_ok g m"
    by blast
  have none: "solve check g = Inl UnsolvablePuzzleError" if "check cs = None"
    using that by (simp add: solve_def cs)
  have ok: "model_ok g m" if m: "check cs = Some m" for m
  proof -
    from snd m have "list_all (holds m) cs" by (simp add: z3_sound_def)
    with iff show ?thesis by simp
  qed
  have some: "solve check g = Inr \<lparr>f_puzzle = result_cells m (f_size g), f_size = f_size g\<rparr>"
    if m: "check cs = Some m" for m
  proof -
    from ok [OF m] have "\<forall>x<f_size g. \<forall>y<f_size g. m (x, y) = 0 \<or> m (x, y) = 1"
      by (simp add: model_ok_def Let_def)
    from construct_result [OF pos ev this] m show ?thesis
      by (simp add: solve_def cs)
  qed
  from iff have iff': "list_all (holds m) cs \<longleftrightarrow> model_ok g m" for m by simp
  show thesis by (rule that [OF cs iff' none ok some])
qed

lemma solve_Inr_solved:
  assumes c: "construct cells = Inr g" and snd: "z3_sound check" and s: "solve check g = Inr r"
  shows "square g \<and> square r \<and> f_size r = f_size g \<and> keeps_clues g r \<and> solved r"
proof -
  from s obtain cs0 where "constraints g = Inr cs0"
    by (auto simp: solve_def split: sum.splits)
  with c have sq: "square g" by (rule constraints_Inr_square)
  show ?thesis
  proof (rule solve_square [OF c sq snd])
    fix cs
    assume none: "check cs = None \<Longrightarrow> solve check g = Inl UnsolvablePuzzleError"
      and ok: "\<And>m. check cs = Some m \<Longrightarrow> model_ok g m"
      and some: "\<And>m. check cs = Some m \<Longrightarrow>
           solve check g = Inr \<lparr>f_puzzle = result_cells m (f_size g), f_size = f_size g\<rparr>"
    from none s obtain m where m: "check cs = Some m" by (cases "check cs") auto
    from some [OF m] s have r: "r = \<lparr>f_puzzle = result_cells m (f_size g), f_size = f_size g\<rparr>"
      by simp
    from ok [OF m] have bin: "\<forall>x<f_size g. \<forall>y<f_size g. m (x, y) = 0 \<or> m (x, y) = 1"
      by (simp add: model_ok_def Let_def)
    from construct_size [OF c] have ev: "even (f_size g)" by simp
    from solved_result [OF bin ev refl] ok [OF m]
    have "keeps_clues g r \<and> solved r" by (simp add: r)
    with sq show ?thesis by (simp add: r square_result)
  qed
qed

lemma solution_model:
  assumes sq: "square r" and n: "f_size r = f_size g" and ev: "even (f_size g)"
    and sv: "solved r"
  shows "(\<forall>p. model_of r p = 0 \<or> model_of r p = 1)
         \<and> r = \<lparr>f_puzzle = result_cells (model_of r) (f_size g), f_size = f_size g\<rparr>"
proof -
  from sq have len: "length (f_puzzle r) = f_size r"
    and lens: "\<And>x. x < f_size r \<Longrightarrow> length (f_puzzle r ! x) = f_size r"
    by (simp_all add: square_def rows_def)
  from sv have bal: "\<forall>line\<in>set (rows r). balanced (f_size r) line"
    by (auto simp: solved_def split: sum.splits)
  have filled: "f_puzzle r ! x ! y = Some 0 \<or> f_puzzle r ! x ! y = Some 1"
    if "x < f_size r" "y < f_size r" for x y
  proof (rule balanced_filled)
    from that(1) len have "f_puzzle r ! x \<in> set (rows r)" by (simp add: rows_def)
    with bal show "balanced (f_size r) (f_puzzle r ! x)" by blast
    show "length (f_puzzle r ! x) = f_size r" using that(1) by (rule lens)
    show "even (f_size r)" using ev n by simp
    show "f_puzzle r ! x ! y \<in> set (f_puzzle r ! x)" using that lens by simp
  qed
  have bin: "model_of r p = 0 \<or> model_of r p = 1" for p
  proof (cases p)
    case (Pair x y)
    with filled [of x y] show ?thesis by (auto simp: model_of_def)
  qed
  have cell: "f_puzzle r ! x ! y = Some (model_of r (x, y))"
    if "x < f_size r" "y < f_size r" for x y
    using filled [OF that] that by (auto simp: model_of_def)
  have "f_puzzle r = result_cells (model_of r) (f_size r)"
    unfolding result_cells_def
    by (rule nth_equalityI) (auto simp: len lens cell intro!: nth_equalityI)
  then have "r = \<lparr>f_puzzle = result_cells (model_of r) (f_size r), f_size = f_size r\<rparr>"
    by (cases r) simp
  with bin n show ?thesis by metis
qed


section \<open>Properties of a solved grid\<close>


lemma try_model_sound: "z3_sound (try_model m)"
  by (simp add: z3_sound_def try_model_def)

lemma solved_D:
  assumes "solved r"
  shows "\<exists>cs. columns r = Inr cs
           \<and> (\<forall>row\<in>set (rows r). balanced (f_size r) row \<and> \<not> has_triple row)
           \<and> (\<forall>col\<in>set cs. balanced (f_size r) col \<and> \<not> has_triple col)
           \<and> pairwise_differ (rows r) \<and> pairwise_differ cs"
  using assms by (cases "columns r") (auto simp: solved_def)

text \<open>
  C3: when \<open>solve\<close> succeeds on a constructed grid, both grids are square of the same
  size, and at every position where the original cell is not the unknown marker the
  returned grid holds the original value.
\<close>

theorem solve_keeps_clues:
  assumes "construct cells = Inr g" and "z3_sound check" and "solve check g = Inr r"
  shows "square g \<and> square r \<and> f_size r = f_size g
         \<and> (\<forall>(x, y)\<in>set (positions g).
               rows g ! x ! y \<noteq> None \<longrightarrow> rows r ! x ! y = rows g ! x ! y)"
  using solve_Inr_solved [OF assms] by (simp add: keeps_clues_def rows_def)

theorem solve_keeps_clues_witness:
  "solve enum_check \<lparr>f_puzzle = [[None, Some 1], [None, None]], f_size = 2\<rparr>
     = Inr \<lparr>f_puzzle = [[Some 0, Some 1], [Some 1, Some 0]], f_size = 2\<rparr>
   \<and> rows \<lparr>f_puzzle = [[Some 0, Some 1], [Some 1, Some 0]], f_size = 2\<rparr> ! 0 ! 1
       = rows \<lparr>f_puzzle = [[None, Some 1], [None, None]], f_size = 2\<rparr> ! 0 ! 1"
proof -
  have c: "construct [[None, Some 1], [None, None]]
             = Inr \<lparr>f_puzzle = [[None, Some 1], [None, None]], f_size = 2\<rparr>"
    by code_simp
  have s: "solve enum_check \<lparr>f_puzzle = [[None, Some 1], [None, None]], f_size = 2\<rparr>
             = Inr \<lparr>f_puzzle = [[Some 0, Some 1], [Some 1, Some 0]], f_size = 2\<rparr>"
    by code_simp
  have p: "(0, 1) \<in> set (positions \<lparr>f_puzzle = [[None, Some 1], [None, None]], f_size = 2\<rparr>)"
    by (simp add: set_positions)
  from solve_keeps_clues [OF c enum_check_sound s] p s show ?thesis
    by (simp add: rows_def)
qed


text \<open>
  C4: when \<open>solve\<close> succeeds on a constructed grid, every row and every column of the
  returned grid holds exactly \<open>size/2\<close> zeros, exactly \<open>size/2\<close> ones and no unknown
  marker.
\<close>

theorem solve_balanced:
  assumes "construct cells = Inr g" and "z3_sound check" and "solve check g = Inr r"
  shows "f_size r = f_size g
         \<and> (\<forall>row\<in>set (rows r). balanced (f_size r) row)
         \<and> (\<exists>cs. columns r = Inr cs \<and> (\<forall>col\<in>set cs. balanced (f_size r) col))"
proof -
  from solve_Inr_solved [OF assms] have "f_size r = f_size g" and "solved r" by simp_all
  with solved_D [of r] show ?thesis by blast
qed

theorem solve_balanced_witness:
  "solve enum_check \<lparr>f_puzzle = [[Some 1, None], [None, None]], f_size = 2\<rparr>
     = Inr \<lparr>f_puzzle = [[Some 1, Some 0], [Some 0, Some 1]], f_size = 2\<rparr>
   \<and> list_all (balanced 2) (rows \<lparr>f_puzzle = [[Some 1, Some 0], [Some 0, Some 1]], f_size = 2\<rparr>)
   \<and> columns \<lparr>f_puzzle = [[Some 1, Some 0], [Some 0, Some 1]], f_size = 2\<rparr>
       = Inr [[Some 1, Some 0], [Some 0, Some 1]]"
proof -
  have c: "construct [[Some 1, None], [None, None]]
             = Inr \<lparr>f_puzzle = [[Some 1, None], [None, None]], f_size = 2\<rparr>"
    by code_simp
  have s: "solve enum_check \<lparr>f_puzzle = [[Some 1, None], [None, None]], f_size = 2\<rparr>
             = Inr \<lparr>f_puzzle = [[Some 1, Some 0], [Some 0, Some 1]], f_size = 2\<rparr>"
    by code_simp
  have k: "columns \<lparr>f_puzzle = [[Some 1, Some 0], [Some 0, Some 1]], f_size = 2\<rparr>
             = Inr [[Some 1, Some 0], [Some 0, Some 1]]"
    by code_simp
  from solve_balanced [OF c enum_check_sound s] s k show ?thesis
    by (simp add: list_all_iff)
qed

text \<open>
  C5: when \<open>solve\<close> succeeds on a constructed grid of size above 2, no row and no column
  of the returned grid has three consecutive equal values; for size 2 the no-triple rule
  adds no constraint at all.
\<close>

theorem solve_no_triple:
  assumes "construct cells = Inr g" and "z3_sound check" and "solve check g = Inr r"
  shows "(2 < f_size g \<longrightarrow>
            (\<forall>row\<in>set (rows r). \<not> has_triple row)
            \<and> (\<exists>cs. columns r = Inr cs \<and> (\<forall>col\<in>set cs. \<not> has_triple col)))
         \<and> (f_size g = 2 \<longrightarrow> no_triple (f_size g) = Inr [])"
proof -
  from solve_Inr_solved [OF assms] have "solved r" by simp
  with solved_D [of r] have
    "(\<forall>row\<in>set (rows r). \<not> has_triple row)
     \<and> (\<exists>cs. columns r = Inr cs \<and> (\<forall>col\<in>set cs. \<not> has_triple col))"
    by blast
  moreover have "no_triple 2 = Inr []" by (simp add: no_triple_def)
  ultimately show ?thesis by simp
qed

theorem solve_no_triple_witness:
  "solve (try_model (model_of \<lparr>f_puzzle = [[Some 0, Some 1, Some 1, Some 0],
                                            [Some 1, Some 0, Some 0, Some 1],
                                            [Some 0, Some 1, Some 0, Some 1],
                                            [Some 1, Some 0, Some 1, Some 0]], f_size = 4\<rparr>))
         \<lparr>f_puzzle = [[None, Some 1, Some 1, Some 0],
                      [Some 1, None, Some 0, Some 1],
                      [Some 0, Some 1, None, Some 1],
                      [Some 1, Some 0, Some 1, None]], f_size = 4\<rparr>
     = Inr \<lparr>f_puzzle = [[Some 0, Some 1, Some 1, Some 0],
                         [Some 1, Some 0, Some 0, Some 1],
                         [Some 0, Some 1, Some 0, Some 1],
                         [Some 1, Some 0, Some 1, Some 0]], f_size = 4\<rparr>
   \<and> list_all (\<lambda>row. \<not> has_triple row)
        (rows \<lparr>f_puzzle = [[Some 0, Some 1, Some 1, Some 0],
                           [Some 1, Some 0, Some 0, Some 1],
                           [Some 0, Some 1, Some 0, Some 1],
                           [Some 1, Some 0, Some 1, Some 0]], f_size = 4\<rparr>)
   \<and> no_triple 2 = Inr []"
proof -
  let ?r = "\<lparr>f_puzzle = [[Some 0, Some 1, Some 1, Some 0],
                         [Some 1, Some 0, Some 0, Some 1],
                         [Some 0, Some 1, Some 0, Some 1],
                         [Some 1, Some 0, Some 1, Some 0]], f_size = 4\<rparr>"
  let ?g = "\<lparr>f_puzzle = [[None, Some 1, Some 1, Some 0],
                         [Some 1, None, Some 0, Some 1],
                         [Some 0, Some 1, None, Some 1],
                         [Some 1, Some 0, Some 1, None]], f_size = 4\<rparr>"
  have c: "construct (f_puzzle ?g) = Inr ?g"
    by code_simp
  have s: "solve (try_model (model_of ?r)) ?g = Inr ?r"
    by code_simp
  have c2: "construct [[None, Some 1], [None, None]]
             = Inr \<lparr>f_puzzle = [[None, Some 1], [None, None]], f_size = 2\<rparr>"
    by code_simp
  have s2: "solve enum_check \<lparr>f_puzzle = [[None, Some 1], [None, None]], f_size = 2\<rparr>
             = Inr \<lparr>f_puzzle = [[Some 0, Some 1], [Some 1, Some 0]], f_size = 2\<rparr>"
    by code_simp
  from solve_no_triple [OF c try_model_sound s] solve_no_triple [OF c2 enum_check_sound s2] s
  show ?thesis
    by (simp add: list_all_iff)
qed

text \<open>
  C6: when \<open>solve\<close> succeeds on a constructed grid, any two rows of the returned grid at
  different places differ in at least one cell, and so do any two columns.
\<close>

theorem solve_unique:
  assumes "construct cells = Inr g" and "z3_sound check" and "solve check g = Inr r"
  shows "pairwise_differ (rows r) \<and> (\<exists>cs. columns r = Inr cs \<and> pairwise_differ cs)"
proof -
  from solve_Inr_solved [OF assms] have "solved r" by simp
  with solved_D [of r] show ?thesis by blast
qed

theorem solve_unique_witness:
  "solve enum_check \<lparr>f_puzzle = [[None, None], [Some 0, None]], f_size = 2\<rparr>
     = Inr \<lparr>f_puzzle = [[Some 1, Some 0], [Some 0, Some 1]], f_size = 2\<rparr>
   \<and> pairwise_differ (rows \<lparr>f_puzzle = [[Some 1, Some 0], [Some 0, Some 1]], f_size = 2\<rparr>)"
proof -
  have c: "construct [[None, None], [Some 0, None]]
             = Inr \<lparr>f_puzzle = [[None, None], [Some 0, None]], f_size = 2\<rparr>"
    by code_simp
  have s: "solve enum_check \<lparr>f_puzzle = [[None, None], [Some 0, None]], f_size = 2\<rparr>
             = Inr \<lparr>f_puzzle = [[Some 1, Some 0], [Some 0, Some 1]], f_size = 2\<rparr>"
    by code_simp
  from solve_unique [OF c enum_check_sound s] s show ?thesis
    by simp
qed


section \<open>Unsolvable and already solved grids\<close>


lemma solution_model_ok:
  assumes ev: "even (f_size g)" and sol: "solution g r"
  shows "model_ok g (model_of r) \<and> (\<forall>p. model_of r p = 0 \<or> model_of r p = 1)"
proof -
  from sol have sq: "square r" and n: "f_size r = f_size g" and k: "keeps_clues g r"
    and sv: "solved r"
    by (simp_all add: solution_def)
  from solution_model [OF sq n ev sv]
  have bin: "\<forall>p. model_of r p = 0 \<or> model_of r p = 1"
    and r: "\<lparr>f_puzzle = result_cells (model_of r) (f_size g), f_size = f_size g\<rparr> = r"
    by simp_all
  from bin have bin': "\<forall>x<f_size g. \<forall>y<f_size g. model_of r (x, y) = 0 \<or> model_of r (x, y) = 1"
    by simp
  from k sv have "model_ok g (model_of r)"
    unfolding solved_result [OF bin' ev refl] r by simp
  with bin show ?thesis by simp
qed

lemma model_ok_solution:
  assumes ev: "even (f_size g)" and ok: "model_ok g m"
  shows "solution g \<lparr>f_puzzle = result_cells m (f_size g), f_size = f_size g\<rparr>"
proof -
  from ok have bin: "\<forall>x<f_size g. \<forall>y<f_size g. m (x, y) = 0 \<or> m (x, y) = 1"
    by (simp add: model_ok_def Let_def)
  from ok show ?thesis
    unfolding solved_result [OF bin ev refl] solution_def
    by (simp add: square_result)
qed

lemma unsolvable_iff_no_solution:
  assumes c: "construct cells = Inr g" and sq: "square g"
    and snd: "z3_sound check" and cmp: "z3_complete check"
  shows "solve check g = Inl UnsolvablePuzzleError \<longleftrightarrow> \<not> (\<exists>r. solution g r)"
proof (rule solve_square [OF c sq snd])
  fix cs
  assume iff: "\<And>m. list_all (holds m) cs \<longleftrightarrow> model_ok g m"
    and none: "check cs = None \<Longrightarrow> solve check g = Inl UnsolvablePuzzleError"
    and ok: "\<And>m. check cs = Some m \<Longrightarrow> model_ok g m"
    and some: "\<And>m. check cs = Some m \<Longrightarrow>
           solve check g = Inr \<lparr>f_puzzle = result_cells m (f_size g), f_size = f_size g\<rparr>"
  from construct_size [OF c] have ev: "even (f_size g)" by simp
  show ?thesis
  proof
    assume u: "solve check g = Inl UnsolvablePuzzleError"
    show "\<not> (\<exists>r. solution g r)"
    proof
      assume "\<exists>r. solution g r"
      then obtain r where "solution g r" ..
      from solution_model_ok [OF ev this]
      have "list_all (holds (model_of r)) cs" and "\<forall>p. model_of r p = 0 \<or> model_of r p = 1"
        by (simp_all add: iff)
      with cmp have "check cs \<noteq> None"
        unfolding z3_complete_def by blast
      then obtain m where "check cs = Some m" by auto
      from some [OF this] u show False by simp
    qed
  next
    assume no: "\<not> (\<exists>r. solution g r)"
    show "solve check g = Inl UnsolvablePuzzleError"
    proof (cases "check cs")
      case None
      then show ?thesis by (rule none)
    next
      case (Some m)
      from model_ok_solution [OF ev ok [OF Some]] no show ?thesis by blast
    qed
  qed
qed

lemma solve_solved:
  assumes c: "construct cells = Inr g" and sv: "solved g"
    and snd: "z3_sound check" and cmp: "z3_complete check"
  shows "solve check g = Inr g"
proof -
  from solved_D [OF sv] obtain cols where "columns g = Inr cols" by blast
  with c have sq: "square g" by (rule columns_square_D)
  from construct_size [OF c] have ev: "even (f_size g)" by simp
  from solution_model [OF sq refl ev sv]
  have g: "\<lparr>f_puzzle = result_cells (model_of g) (f_size g), f_size = f_size g\<rparr> = g"
    by simp
  have "keeps_clues g g" by (simp add: keeps_clues_def)
  with sq sv have sol: "solution g g" by (simp add: solution_def)
  show ?thesis
  proof (rule solve_square [OF c sq snd])
    fix cs
    assume iff: "\<And>m. list_all (holds m) cs \<longleftrightarrow> model_ok g m"
      and ok: "\<And>m. check cs = Some m \<Longrightarrow> model_ok g m"
      and some: "\<And>m. check cs = Some m \<Longrightarrow>
             solve check g = Inr \<lparr>f_puzzle = result_cells m (f_size g), f_size = f_size g\<rparr>"
    from solution_model_ok [OF ev sol]
    have "list_all (holds (model_of g)) cs" and "\<forall>p. model_of g p = 0 \<or> model_of g p = 1"
      by (simp_all add: iff)
    with cmp have "check cs \<noteq> None"
      unfolding z3_complete_def by blast
    then obtain m where m: "check cs = Some m" by auto
    have "m (x, y) = model_of g (x, y)" if xy: "x < f_size g" "y < f_size g" for x y
    proof -
      have "f_puzzle g ! x ! y = Some (model_of g (x, y))"
        using result_cells_nth [OF xy, of "model_of g"] g
        by (metis BinaryPuzzle.select_convs(1))
      with ok [OF m] xy show ?thesis by (simp add: model_ok_def Let_def)
    qed
    then have "result_cells m (f_size g) = result_cells (model_of g) (f_size g)"
      by (simp add: result_cells_def)
    with some [OF m] g show ?thesis by simp
  qed
qed




lemma upt_4: "[0..<4] = [0, 1, 2, 3]"
  by code_simp

lemma upt_2: "[0..<2] = [0, 1]"
  by code_simp

lemma all_ones_no_model: "\<not> model_ok all_ones m"
proof
  assume ok: "model_ok all_ones m"
  then have c: "\<And>x y v. x < 4 \<Longrightarrow> y < 4 \<Longrightarrow> f_puzzle all_ones ! x ! y = Some v \<Longrightarrow> m (x, y) = v"
    and b: "sum_list (map (\<lambda>y. m (0, y)) [0..<4]) = int 4 div 2"
    by (simp_all add: model_ok_def Let_def all_ones_def)
  have "m (0, 0) = 1" "m (0, 1) = 1" "m (0, 2) = 1" "m (0, 3) = 1"
    by (rule c; simp add: all_ones_def)+
  with b show False by (simp add: upt_4)
qed

lemma three_ones_no_model: "\<not> model_ok three_ones m"
proof
  assume ok: "model_ok three_ones m"
  then have c: "\<And>x y v. x < 2 \<Longrightarrow> y < 2 \<Longrightarrow> f_puzzle three_ones ! x ! y = Some v \<Longrightarrow> m (x, y) = v"
    and b: "sum_list (map (\<lambda>y. m (0, y)) [0..<2]) = int 2 div 2"
    by (simp_all add: model_ok_def Let_def three_ones_def)
  have "m (0, 0) = 1" "m (0, 1) = 1"
    by (rule c; simp add: three_ones_def)+
  with b show False by (simp add: upt_2)
qed

lemma construct_all_ones: "construct (f_puzzle all_ones) = Inr all_ones"
  unfolding all_ones_def by code_simp

lemma construct_three_ones: "construct (f_puzzle three_ones) = Inr three_ones"
  unfolding three_ones_def by code_simp

lemma square_all_ones: "square all_ones"
  by (simp add: square_def rows_def all_ones_def)

lemma square_three_ones: "square three_ones"
  by (simp add: square_def rows_def three_ones_def)

lemma no_model_no_solution:
  assumes "even (f_size g)" and "\<And>m. \<not> model_ok g m"
  shows "\<not> (\<exists>r. solution g r)"
  using solution_model_ok [OF assms(1)] assms(2) by blast

text \<open>
  C7: for a constructed square grid, \<open>solve\<close> raises \<open>UnsolvablePuzzleError\<close> exactly
  when no assignment of 0/1 values to the unknown cells satisfies all four rules and keeps
  the given cells; the grid of sixteen ones and the grid \<open>[[1, 1], [1, N]]\<close> are two such
  grids. The result is then the error alone, not a grid.
\<close>

theorem solve_unsolvable:
  assumes "construct cells = Inr g" and "square g"
    and "z3_sound check" and "z3_complete check"
  shows "(solve check g = Inl UnsolvablePuzzleError \<longleftrightarrow> \<not> (\<exists>r. solution g r))
         \<and> construct (f_puzzle all_ones) = Inr all_ones
         \<and> solve check all_ones = Inl UnsolvablePuzzleError
         \<and> construct (f_puzzle three_ones) = Inr three_ones
         \<and> solve check three_ones = Inl UnsolvablePuzzleError"
proof -
  have "\<not> (\<exists>r. solution all_ones r)"
    by (rule no_model_no_solution) (simp_all add: all_ones_no_model, simp add: all_ones_def)
  then have a: "solve check all_ones = Inl UnsolvablePuzzleError"
    using unsolvable_iff_no_solution [OF construct_all_ones square_all_ones assms(3,4)] by simp
  have "\<not> (\<exists>r. solution three_ones r)"
    by (rule no_model_no_solution) (simp_all add: three_ones_no_model, simp add: three_ones_def)
  then have b: "solve check three_ones = Inl UnsolvablePuzzleError"
    using unsolvable_iff_no_solution [OF construct_three_ones square_three_ones assms(3,4)] by simp
  from unsolvable_iff_no_solution [OF assms] a b construct_all_ones construct_three_ones
  show ?thesis by simp
qed

theorem solve_unsolvable_witness:
  "solve enum_check three_ones = Inl UnsolvablePuzzleError
   \<and> \<not> (\<exists>r. solution three_ones r)
   \<and> solve enum_check \<lparr>f_puzzle = [[None, Some 1], [None, None]], f_size = 2\<rparr>
       = Inr \<lparr>f_puzzle = [[Some 0, Some 1], [Some 1, Some 0]], f_size = 2\<rparr>
   \<and> (\<exists>r. solution \<lparr>f_puzzle = [[None, Some 1], [None, None]], f_size = 2\<rparr> r)"
proof -
  let ?g = "\<lparr>f_puzzle = [[None, Some 1], [None, None]], f_size = 2\<rparr>"
  have c: "construct [[None, Some 1], [None, None]] = Inr ?g"
    by code_simp
  have sq: "square ?g"
    by (simp add: square_def rows_def)
  have s: "solve enum_check ?g
             = Inr \<lparr>f_puzzle = [[Some 0, Some 1], [Some 1, Some 0]], f_size = 2\<rparr>"
    by code_simp
  from solve_unsolvable [OF c sq enum_check_sound enum_check_complete]
    solve_unsolvable [OF construct_three_ones square_three_ones enum_check_sound
      enum_check_complete] s
  show ?thesis by auto
qed


section \<open>Solved grids, equality and grids that are not square\<close>


lemma construct_solved_2x2: "construct (f_puzzle solved_2x2) = Inr solved_2x2"
  unfolding solved_2x2_def by code_simp

lemma columns_solved_2x2: "columns solved_2x2 = Inr [[Some 0, Some 1], [Some 1, Some 0]]"
  unfolding solved_2x2_def by code_simp

lemma pairwise_differ_2x2: "pairwise_differ [[Some 0, Some 1], [Some 1, Some 0]]"
  unfolding pairwise_differ_def
proof (intro allI impI)
  fix i j :: nat
  assume "i < length [[Some (0::int), Some 1], [Some 1, Some 0]]"
    and "j < length [[Some (0::int), Some 1], [Some 1, Some 0]]" and "i \<noteq> j"
  then have "i = 0 \<and> j = 1 \<or> i = 1 \<and> j = 0" by auto
  then show "\<exists>k. k < length ([[Some (0::int), Some 1], [Some 1, Some 0]] ! i)
               \<and> k < length ([[Some (0::int), Some 1], [Some 1, Some 0]] ! j)
               \<and> [[Some (0::int), Some 1], [Some 1, Some 0]] ! i ! k
                   \<noteq> [[Some 0, Some 1], [Some 1, Some 0]] ! j ! k"
    by (intro exI [of _ 0]) auto
qed

lemma solved_solved_2x2: "solved solved_2x2"
  unfolding solved_def columns_solved_2x2
  by (simp add: solved_2x2_def rows_def balanced_def pairwise_differ_2x2)

text \<open>
  C9: a constructed grid that has no unknown cell and satisfies all four rules is solved
  to a grid equal to it under \<open>__eq__\<close>; the grid \<open>[[0, 1], [1, 0]]\<close> is one.
\<close>

theorem solve_already_solved:
  assumes "construct cells = Inr g" and "solved g"
    and "z3_sound check" and "z3_complete check"
  shows "(\<exists>r. solve check g = Inr r \<and> BinaryPuzzle_eq g (Puzzle r) = PyBool True)
         \<and> construct (f_puzzle solved_2x2) = Inr solved_2x2
         \<and> (\<exists>r. solve check solved_2x2 = Inr r
                \<and> BinaryPuzzle_eq solved_2x2 (Puzzle r) = PyBool True)"
  using solve_solved [OF assms]
    solve_solved [OF construct_solved_2x2 solved_solved_2x2 assms(3,4)] construct_solved_2x2
  by simp

theorem solve_already_solved_witness:
  "solve enum_check solved_2x2 = Inr solved_2x2
   \<and> BinaryPuzzle_eq solved_2x2 (Puzzle solved_2x2) = PyBool True"
proof -
  have s: "solve enum_check solved_2x2 = Inr solved_2x2"
    unfolding solved_2x2_def by code_simp
  from solve_already_solved
    [OF construct_solved_2x2 solved_solved_2x2 enum_check_sound enum_check_complete] s
  show ?thesis by simp
qed

text \<open>
  C10, as the code has it: for an operand that is not a \<open>BinaryPuzzle\<close>, \<open>__eq__\<close> raises
  nothing and returns \<open>NotImplemented\<close>; the comparison \<open>grid == other\<close> is then true
  exactly when the operand's own reflected \<open>__eq__\<close> returns true, and it is false for an
  integer.
\<close>

theorem eq_not_a_puzzle:
  assumes "\<not> isinstance_BinaryPuzzle other"
  shows "BinaryPuzzle_eq g other = NotImplemented
         \<and> (equals g other \<longleftrightarrow> reflected_eq other g = PyBool True)
         \<and> \<not> equals g (PyInt n)"
  using assms by (cases other) (auto simp: equals_def split: eq_result.splits)

theorem eq_not_a_puzzle_witness:
  "BinaryPuzzle_eq solved_2x2 (PyInt 42) = NotImplemented \<and> \<not> equals solved_2x2 (PyInt 42)"
  using eq_not_a_puzzle [of "PyInt 42" solved_2x2 42] by simp

theorem eq_not_a_puzzle_counterexample:
  "BinaryPuzzle_eq solved_2x2 (PyInt 42) \<noteq> PyBool False
   \<and> equals solved_2x2 (Foreign always_equal)"
  by (simp add: equals_def always_equal_def)

text \<open>
  C1 fails on the code: \<open>__init__\<close> compares the total number of cells with
  \<open>size ** 2\<close>, so it accepts two rows of lengths 3 and 1.
\<close>

theorem construct_accepts_ragged:
  "construct (f_puzzle ragged) = Inr ragged \<and> f_size ragged = 2
   \<and> map length (rows ragged) = [3, 1]"
  unfolding ragged_def by (simp add: rows_def) code_simp

text \<open>
  On a constructed grid that is square, \<open>solve\<close> has two outcomes only: the error
  \<open>UnsolvablePuzzleError\<close>, or a grid that satisfies all four rules.
\<close>

lemma solve_square_cases:
  assumes c: "construct cells = Inr g" and sq: "square g" and snd: "z3_sound check"
  shows "solve check g = Inl UnsolvablePuzzleError \<or> (\<exists>r. solve check g = Inr r \<and> solved r)"
proof (rule solve_square [OF c sq snd])
  fix cs
  assume none: "check cs = None \<Longrightarrow> solve check g = Inl UnsolvablePuzzleError"
    and some: "\<And>m. check cs = Some m \<Longrightarrow>
           solve check g = Inr \<lparr>f_puzzle = result_cells m (f_size g), f_size = f_size g\<rparr>"
  show ?thesis
  proof (cases "check cs")
    case None
    then show ?thesis by (simp add: none)
  next
    case (Some m)
    from solve_Inr_solved [OF c snd some [OF Some]] some [OF Some] show ?thesis by simp
  qed
qed

text \<open>
  C2 fails on the code: on that accepted grid \<open>solve\<close> reads \<open>self._puzzle[1][1]\<close> and
  raises \<open>IndexError\<close>, whatever the solver.
\<close>

theorem solve_ragged_index_error: "solve check ragged = Inl IndexError"
proof -
  have "givens ragged = Inl IndexError"
    by (simp add: givens_def positions_def given_def getitem_def ragged_def upt_2)
  then show ?thesis by (simp add: solve_def constraints_def)
qed


end
